theory Spec2Isabelle
  imports Main "HOL-Library.Word"
begin

section \<open>The hero typing animation\<close>

text \<open>
  Both source files end with the same self-rescheduling pair of functions \<open>type\<close> and
  \<open>erase\<close>. They share three pieces of mutable state: the counters \<open>textIndex\<close> and
  \<open>charIndex\<close> and the \<open>textContent\<close> of the element with id \<open>typed-text\<close>.
  The element lookup may have returned \<open>null\<close>, so the sink is an option. JavaScript
  numbers can be negative, so the counters are integers. The animation never looks
  inside a character, so strings are lists over an arbitrary type of code units.
\<close>

datatype error = TypeError

datatype callback = Type | Erase

type_synonym timer = "callback \<times> nat"

record 'c animator =
  typedTextSpan :: "'c list option"
  textIndex :: int
  charIndex :: int

definition texts :: "string list" where
  "texts = [''Hi, I'm Jackson Kovarik'', ''Welcome To My Portfolio'']"

definition typingDelay :: nat where "typingDelay = 150"
definition erasingDelay :: nat where "erasingDelay = 100"
definition newTextDelay :: nat where "newTextDelay = 2000"

text \<open>Array indexing \<open>xs[i]\<close>: \<open>undefined\<close> (here \<open>None\<close>) outside the array.\<close>

definition index :: "'a list \<Rightarrow> int \<Rightarrow> 'a option" where
  "index xs i = (if 0 \<le> i \<and> i < int (length xs) then Some (xs ! nat i) else None)"

text \<open>\<open>s.charAt(i)\<close>: the empty string outside the string.\<close>

definition charAt :: "'c list \<Rightarrow> int \<Rightarrow> 'c list" where
  "charAt s i = (if 0 \<le> i \<and> i < int (length s) then [s ! nat i] else [])"

text \<open>\<open>s.substring(a, b)\<close>: both arguments are clamped to the string and swapped
  when out of order.\<close>

definition substring :: "'c list \<Rightarrow> int \<Rightarrow> int \<Rightarrow> 'c list" where
  "substring s a b =
     (let n = int (length s);
          a' = min (max a 0) n;
          b' = min (max b 0) n;
          from = min a' b';
          to = max a' b'
      in take (nat (to - from)) (drop (nat from) s))"

text \<open>
  One call of \<open>type()\<close> of \<open>src/app.js\<close>. Reading \<open>.length\<close> of an undefined playlist
  entry and writing \<open>.textContent\<close> of a missing element both throw a TypeError. The
  result is the new state and the one timer the call sets.
\<close>

definition type :: "'c list list \<Rightarrow> 'c animator \<Rightarrow> error + ('c animator \<times> timer)" where
  "type txs s =
     (case index txs (textIndex s) of
        None \<Rightarrow> Inl TypeError
      | Some t \<Rightarrow>
          if charIndex s < int (length t) then
            (case typedTextSpan s of
               None \<Rightarrow> Inl TypeError
             | Some shown \<Rightarrow>
                 Inr (s\<lparr>typedTextSpan := Some (shown @ charAt t (charIndex s)),
                        charIndex := charIndex s + 1\<rparr>,
                      (Type, typingDelay)))
          else Inr (s, (Erase, newTextDelay)))"

text \<open>One call of \<open>erase()\<close> of \<open>src/app.js\<close>. Its else branch touches neither the
  playlist entry nor the element, so it cannot throw.\<close>

definition erase :: "'c list list \<Rightarrow> 'c animator \<Rightarrow> error + ('c animator \<times> timer)" where
  "erase txs s =
     (if charIndex s > 0 then
        (case typedTextSpan s of
           None \<Rightarrow> Inl TypeError
         | Some shown \<Rightarrow>
             (case index txs (textIndex s) of
                None \<Rightarrow> Inl TypeError
              | Some t \<Rightarrow>
                  Inr (s\<lparr>typedTextSpan := Some (substring t 0 (charIndex s - 1)),
                         charIndex := charIndex s - 1\<rparr>,
                       (Erase, erasingDelay))))
      else
        (let i = textIndex s + 1;
             i' = (if i \<ge> int (length txs) then 0 else i)
         in Inr (s\<lparr>textIndex := i'\<rparr>, (Type, typingDelay + 1100))))"

text \<open>
  The same two functions as \<open>src/unnamed/part_000\<close> writes them. There the element is
  the constant \<open>typedTextSpan\<close> instead of the field \<open>domCache.typedTextSpan\<close>; the
  counters, the playlist and the delays are declared the same way.
\<close>

definition type_part_000 ::
  "'c list list \<Rightarrow> 'c animator \<Rightarrow> error + ('c animator \<times> timer)" where
  "type_part_000 txs s =
     (case index txs (textIndex s) of
        None \<Rightarrow> Inl TypeError
      | Some t \<Rightarrow>
          if charIndex s < int (length t) then
            (case typedTextSpan s of
               None \<Rightarrow> Inl TypeError
             | Some shown \<Rightarrow>
                 Inr (s\<lparr>typedTextSpan := Some (shown @ charAt t (charIndex s)),
                        charIndex := charIndex s + 1\<rparr>,
                      (Type, typingDelay)))
          else Inr (s, (Erase, newTextDelay)))"

definition erase_part_000 ::
  "'c list list \<Rightarrow> 'c animator \<Rightarrow> error + ('c animator \<times> timer)" where
  "erase_part_000 txs s =
     (if charIndex s > 0 then
        (case typedTextSpan s of
           None \<Rightarrow> Inl TypeError
         | Some shown \<Rightarrow>
             (case index txs (textIndex s) of
                None \<Rightarrow> Inl TypeError
              | Some t \<Rightarrow>
                  Inr (s\<lparr>typedTextSpan := Some (substring t 0 (charIndex s - 1)),
                         charIndex := charIndex s - 1\<rparr>,
                       (Erase, erasingDelay))))
      else
        (let i = textIndex s + 1;
             i' = (if i \<ge> int (length txs) then 0 else i)
         in Inr (s\<lparr>textIndex := i'\<rparr>, (Type, typingDelay + 1100))))"

text \<open>
  The start of the animation at the end of the \<open>DOMContentLoaded\<close> handler: the counters
  are declared as zero, and \<open>type()\<close> is called only if the element was found. The
  argument is the element as the page provides it; the result holds the timer that is
  pending afterwards, if any.
\<close>

definition initial :: "'c list option \<Rightarrow> 'c animator" where
  "initial sink = \<lparr>typedTextSpan = sink, textIndex = 0, charIndex = 0\<rparr>"

definition start ::
  "'c list list \<Rightarrow> 'c list option \<Rightarrow> error + ('c animator \<times> timer option)" where
  "start txs sink =
     (case sink of
        None \<Rightarrow> Inr (initial sink, None)
      | Some shown \<Rightarrow>
          (case type txs (initial sink) of
             Inl e \<Rightarrow> Inl e
           | Inr (s, t) \<Rightarrow> Inr (s, Some t)))"

definition start_part_000 ::
  "'c list list \<Rightarrow> 'c list option \<Rightarrow> error + ('c animator \<times> timer option)" where
  "start_part_000 txs sink =
     (case sink of
        None \<Rightarrow> Inr (initial sink, None)
      | Some shown \<Rightarrow>
          (case type_part_000 txs (initial sink) of
             Inl e \<Rightarrow> Inl e
           | Inr (s, t) \<Rightarrow> Inr (s, Some t)))"

text \<open>
  The host's timer loop: when a timer expires its callback is called, and the call sets
  the next timer. \<open>run n\<close> lets \<open>n\<close> timers expire in a row; a throwing callback sets no
  further timer, so the chain ends with the error.
\<close>

definition fire :: "'c list list \<Rightarrow> callback \<Rightarrow> 'c animator \<Rightarrow> error + ('c animator \<times> timer)" where
  "fire txs cb s = (case cb of Type \<Rightarrow> type txs s | Erase \<Rightarrow> erase txs s)"

fun run :: "nat \<Rightarrow> 'c list list \<Rightarrow> 'c animator \<times> timer \<Rightarrow> error + ('c animator \<times> timer)" where
  "run 0 txs c = Inr c"
| "run (Suc n) txs (s, (cb, d)) =
     (case fire txs cb s of Inl e \<Rightarrow> Inl e | Inr c' \<Rightarrow> run n txs c')"

text \<open>The state once \<open>n\<close> timers have expired, without the pending timer.\<close>

definition state_after ::
  "nat \<Rightarrow> 'c list list \<Rightarrow> 'c animator \<times> timer \<Rightarrow> error + 'c animator" where
  "state_after n txs c = (case run n txs c of Inl e \<Rightarrow> Inl e | Inr (s, t) \<Rightarrow> Inr s)"

text \<open>
  Modelled from the spec: the content of the \<open>typed-text\<close> element when the page loads.
  The page's markup is not among the source files; the specification has the displayed
  text equal to the first \<open>charIndex\<close> characters of the current entry at every
  observable point, hence empty in the initial state.
\<close>

definition initialText :: "'c list" where
  "initialText = []"

text \<open>The configurations (state and pending timer) the animation passes through.\<close>

inductive reachable :: "'c list list \<Rightarrow> 'c animator \<times> timer \<Rightarrow> bool" for txs where
  started: "start txs (Some initialText) = Inr (s, Some t) \<Longrightarrow> reachable txs (s, t)"
| fired: "reachable txs (s, (cb, d)) \<Longrightarrow> fire txs cb s = Inr c' \<Longrightarrow> reachable txs c'"

subsection \<open>Invariants of the state\<close>

text \<open>The bounds of the two counters.\<close>

definition in_bounds :: "'c list list \<Rightarrow> 'c animator \<Rightarrow> bool" where
  "in_bounds txs s =
     (0 \<le> textIndex s \<and> textIndex s < int (length txs) \<and>
      0 \<le> charIndex s \<and> charIndex s \<le> int (length (txs ! nat (textIndex s))))"

text \<open>The element shows the prefix of length \<open>charIndex\<close> of the current entry.\<close>

definition rendered_prefix :: "'c list list \<Rightarrow> 'c animator \<Rightarrow> bool" where
  "rendered_prefix txs s =
     (case index txs (textIndex s) of
        None \<Rightarrow> False
      | Some t \<Rightarrow>
          (case typedTextSpan s of
             None \<Rightarrow> False
           | Some shown \<Rightarrow>
               int (length shown) = charIndex s \<and> shown = take (nat (charIndex s)) t))"

subsection \<open>Cycles\<close>

text \<open>
  A full cycle of an entry \<open>t\<close> takes one call per character typed, the call of \<open>type\<close>
  that finds the entry complete, one call per character erased and the call of \<open>erase\<close>
  that finds the element empty.
\<close>

definition cycle_steps :: "'c list \<Rightarrow> nat" where
  "cycle_steps t = 2 * length t + 2"

definition period :: "'c list list \<Rightarrow> nat" where
  "period txs = sum_list (map cycle_steps txs)"

text \<open>The state in which the cycle of entry \<open>i\<close> begins.\<close>

definition cycle_start :: "nat \<Rightarrow> 'c animator" where
  "cycle_start i = \<lparr>typedTextSpan = Some [], textIndex = int i, charIndex = 0\<rparr>"

text \<open>The text on display after \<open>k\<close> calls of the cycle of entry \<open>t\<close>.\<close>

definition cycle_text :: "'c list \<Rightarrow> nat \<Rightarrow> 'c list" where
  "cycle_text t k = (if k \<le> length t then take k t else take (2 * length t + 1 - k) t)"

text \<open>The state with entry \<open>i\<close> current and \<open>shown\<close> on display, the counter in step with it.\<close>

definition showing :: "nat \<Rightarrow> 'c list \<Rightarrow> 'c animator" where
  "showing i shown = \<lparr>typedTextSpan = Some shown, textIndex = int i, charIndex = int (length shown)\<rparr>"

section \<open>The contact form\<close>

text \<open>
  What the user types is an arbitrary JavaScript string: a list of UTF-16 code units.
  Field names and the messages of the code are ASCII literals.
\<close>

type_synonym code_unit = "16 word"




text \<open>
  Regular expressions, as far as the source uses them: a sequence of atoms, each either
  plain or under \<open>+\<close>, anchored at both ends of the string. An atom is a literal code
  unit or a negated class \<open>[^...]\<close> whose members are literals and \<open>\s\<close>.
\<close>

datatype class_member = Unit code_unit | Space

datatype atom = Lit code_unit | NoneOf "class_member list"

datatype piece = Once atom | OneOrMore atom




text \<open>A rule object; a property it does not have is \<open>undefined\<close>, here \<open>None\<close>.\<close>

record rule =
  minLength :: "nat option"
  pattern :: "piece list option"
  message :: "string option"






text \<open>The notification types \<open>'error'\<close>, \<open>'success'\<close> and the default \<open>'info'\<close>.\<close>

datatype kind = Error | Success | Info












section \<open>Properties of the typing animation\<close>

lemma substring_0: "substring s 0 b = take (nat b) s"
  by (auto simp: substring_def Let_def min_def max_def)

lemma index_Some_iff: "index xs i = Some x \<longleftrightarrow> 0 \<le> i \<and> i < int (length xs) \<and> x = xs ! nat i"
  by (auto simp: index_def)

lemma take_Suc_charAt:
  "0 \<le> c \<Longrightarrow> c < int (length t) \<Longrightarrow> take (nat c) t @ charAt t c = take (nat (c + 1)) t"
  by (simp add: charAt_def nat_add_distrib take_Suc_conv_app_nth)

text \<open>
  Claim C2. In a state whose element exists and whose counters address a character of
  the current entry, one call of \<open>type\<close> appends exactly that character to the text on
  display, adds one to \<open>charIndex\<close> and sets a timer for \<open>type\<close> after 150 ms. With
  \<open>charIndex\<close> equal to the length of the entry the call leaves the state as it is and
  sets a timer for \<open>erase\<close> after 2000 ms.
\<close>

theorem type_step:
  assumes "index txs (textIndex s) = Some t" and "typedTextSpan s = Some shown"
    and "0 \<le> charIndex s"
  shows "(charIndex s < int (length t) \<longrightarrow>
            type txs s = Inr (s\<lparr>typedTextSpan := Some (shown @ [t ! nat (charIndex s)]),
                                charIndex := charIndex s + 1\<rparr>, (Type, 150))) \<and>
         (charIndex s = int (length t) \<longrightarrow> type txs s = Inr (s, (Erase, 2000)))"
  using assms by (simp add: type_def charAt_def typingDelay_def newTextDelay_def)

theorem type_step_witness:
  "index [''Hi''] 0 = Some ''Hi'' \<and> (1::int) < int (length ''Hi'') \<and>
   type [''Hi''] \<lparr>typedTextSpan = Some ''H'', textIndex = 0, charIndex = 1\<rparr>
     = Inr (\<lparr>typedTextSpan = Some ''Hi'', textIndex = 0, charIndex = 2\<rparr>, (Type, 150)) \<and>
   (2::int) = int (length ''Hi'') \<and>
   type [''Hi''] \<lparr>typedTextSpan = Some ''Hi'', textIndex = 0, charIndex = 2\<rparr>
     = Inr (\<lparr>typedTextSpan = Some ''Hi'', textIndex = 0, charIndex = 2\<rparr>, (Erase, 2000))"
proof -
  have ix: "index [''Hi''] 0 = Some ''Hi''"
    by (simp add: index_def)
  from ix
    type_step [of "[''Hi'']" "\<lparr>typedTextSpan = Some ''H'', textIndex = 0, charIndex = 1\<rparr>"
      "''Hi''" "''H''"]
    type_step [of "[''Hi'']" "\<lparr>typedTextSpan = Some ''Hi'', textIndex = 0, charIndex = 2\<rparr>"
      "''Hi''" "''Hi''"]
  show ?thesis by simp
qed

lemma wrap_mod:
  "0 \<le> i \<Longrightarrow> i < n \<Longrightarrow> (if i + 1 \<ge> n then 0 else i + 1) = (i + 1) mod (n::int)"
  by (cases "i + 1 = n") auto

lemma erase_boundary:
  "charIndex s \<le> 0 \<Longrightarrow> 0 \<le> textIndex s \<Longrightarrow> textIndex s < int (length txs) \<Longrightarrow>
   erase txs s = Inr (s\<lparr>textIndex := (textIndex s + 1) mod int (length txs)\<rparr>, (Type, 1250))"
  using wrap_mod [of "textIndex s" "int (length txs)"]
  by (simp add: erase_def Let_def typingDelay_def)

lemma erase_inner:
  "0 < charIndex s \<Longrightarrow> typedTextSpan s = Some shown \<Longrightarrow> index txs (textIndex s) = Some t \<Longrightarrow>
   erase txs s = Inr (s\<lparr>typedTextSpan := Some (take (nat (charIndex s - 1)) t),
                        charIndex := charIndex s - 1\<rparr>, (Erase, 100))"
  by (simp add: erase_def substring_0 erasingDelay_def)

text \<open>
  Claim C3. In a state that satisfies the two invariants, a call of \<open>erase\<close> with
  \<open>charIndex > 0\<close> cuts the text on display down to its first \<open>charIndex - 1\<close>
  characters, subtracts one from \<open>charIndex\<close> and sets a timer for \<open>erase\<close> after
  100 ms. With \<open>charIndex = 0\<close> the call moves \<open>textIndex\<close> to
  \<open>(textIndex + 1) mod length txs\<close> and sets a timer for \<open>type\<close> after
  \<open>typingDelay + 1100\<close>, which is 1250 ms.
\<close>

theorem erase_step:
  assumes "in_bounds txs s" and "rendered_prefix txs s" and "typedTextSpan s = Some shown"
  shows "(charIndex s > 0 \<longrightarrow>
            erase txs s = Inr (s\<lparr>typedTextSpan := Some (take (nat (charIndex s - 1)) shown),
                                 charIndex := charIndex s - 1\<rparr>, (Erase, 100))) \<and>
         (charIndex s = 0 \<longrightarrow>
            erase txs s = Inr (s\<lparr>textIndex := (textIndex s + 1) mod int (length txs)\<rparr>,
                               (Type, typingDelay + 1100)) \<and> typingDelay + 1100 = 1250)"
proof -
  from assms have ti: "0 \<le> textIndex s" "textIndex s < int (length txs)"
    by (simp_all add: in_bounds_def)
  then have ix: "index txs (textIndex s) = Some (txs ! nat (textIndex s))"
    by (simp add: index_def)
  from assms ix have sh: "shown = take (nat (charIndex s)) (txs ! nat (textIndex s))"
    by (simp add: rendered_prefix_def)
  have "take (nat (charIndex s - 1)) (txs ! nat (textIndex s)) = take (nat (charIndex s - 1)) shown"
    by (simp add: sh min_def)
  with erase_inner [OF _ assms(3) ix] erase_boundary [OF _ ti] show ?thesis
    by (simp add: typingDelay_def)
qed

theorem erase_step_witness:
  "in_bounds [''Hi''] \<lparr>typedTextSpan = Some ''Hi'', textIndex = 0, charIndex = 2\<rparr> \<and>
   rendered_prefix [''Hi''] \<lparr>typedTextSpan = Some ''Hi'', textIndex = 0, charIndex = 2\<rparr> \<and>
   erase [''Hi''] \<lparr>typedTextSpan = Some ''Hi'', textIndex = 0, charIndex = 2\<rparr> =
     Inr (\<lparr>typedTextSpan = Some ''H'', textIndex = 0, charIndex = 1\<rparr>, (Erase, 100)) \<and>
   in_bounds [''Hi'', ''Yo''] \<lparr>typedTextSpan = Some '''', textIndex = 1, charIndex = 0\<rparr> \<and>
   rendered_prefix [''Hi'', ''Yo''] \<lparr>typedTextSpan = Some '''', textIndex = 1, charIndex = 0\<rparr> \<and>
   erase [''Hi'', ''Yo''] \<lparr>typedTextSpan = Some '''', textIndex = 1, charIndex = 0\<rparr> =
     Inr (\<lparr>typedTextSpan = Some '''', textIndex = 0, charIndex = 0\<rparr>, (Type, 1250))"
proof -
  have a: "in_bounds [''Hi''] \<lparr>typedTextSpan = Some ''Hi'', textIndex = 0, charIndex = 2\<rparr>"
    "rendered_prefix [''Hi''] \<lparr>typedTextSpan = Some ''Hi'', textIndex = 0, charIndex = 2\<rparr>"
    by (simp_all add: in_bounds_def rendered_prefix_def index_def)
  have b: "in_bounds [''Hi'', ''Yo''] \<lparr>typedTextSpan = Some '''', textIndex = 1, charIndex = 0\<rparr>"
    "rendered_prefix [''Hi'', ''Yo''] \<lparr>typedTextSpan = Some '''', textIndex = 1, charIndex = 0\<rparr>"
    by (simp_all add: in_bounds_def rendered_prefix_def index_def)
  from erase_step [OF a, of "''Hi''"] erase_step [OF b, of "''''"] a b show ?thesis
    by (simp add: typingDelay_def)
qed

lemma type_in_bounds:
  "in_bounds txs s \<Longrightarrow> type txs s = Inr (s', t) \<Longrightarrow> in_bounds txs s'"
  by (auto simp: type_def in_bounds_def index_def split: option.splits if_splits)

lemma erase_in_bounds:
  "in_bounds txs s \<Longrightarrow> erase txs s = Inr (s', t) \<Longrightarrow> in_bounds txs s'"
  by (auto simp: erase_def in_bounds_def index_def Let_def split: option.splits if_splits)

lemma type_rendered:
  "rendered_prefix txs s \<Longrightarrow> type txs s = Inr (s', t) \<Longrightarrow> rendered_prefix txs s'"
  by (auto simp: type_def rendered_prefix_def index_def take_Suc_charAt [symmetric] charAt_def
      split: option.splits if_splits)

lemma erase_rendered:
  "rendered_prefix txs s \<Longrightarrow> in_bounds txs s \<Longrightarrow> erase txs s = Inr (s', t) \<Longrightarrow> rendered_prefix txs s'"
  by (auto simp: erase_def rendered_prefix_def in_bounds_def index_def Let_def substring_0
      split: option.splits if_splits)

lemma run_snoc:
  "run (Suc n) txs c =
     (case run n txs c of Inl e \<Rightarrow> Inl e | Inr (s, (cb, d)) \<Rightarrow> fire txs cb s)"
proof (induction n arbitrary: c)
  case 0
  obtain s cb d where "c = (s, (cb, d))" by (metis surj_pair)
  then show ?case by (simp split: sum.splits)
next
  case (Suc n)
  obtain s cb d where c: "c = (s, (cb, d))" by (metis surj_pair)
  show ?case
  proof (cases "fire txs cb s")
    case (Inl e)
    with c show ?thesis by simp
  next
    case (Inr c')
    with c Suc.IH [of c'] show ?thesis by simp
  qed
qed

lemma run_add:
  "run (m + n) txs c = (case run m txs c of Inl e \<Rightarrow> Inl e | Inr c' \<Rightarrow> run n txs c')"
proof (induction m arbitrary: c)
  case 0
  show ?case by simp
next
  case (Suc m)
  obtain s cb d where c: "c = (s, (cb, d))" by (metis surj_pair)
  show ?case
  proof (cases "fire txs cb s")
    case (Inl e)
    with c show ?thesis by simp
  next
    case (Inr c')
    with c Suc.IH [of c'] show ?thesis by simp
  qed
qed

lemma type_showing:
  assumes "i < length txs" and "k < length (txs ! i)"
  shows "type txs (showing i (take k (txs ! i))) = Inr (showing i (take (Suc k) (txs ! i)), (Type, 150))"
  using assms
  by (simp add: type_def showing_def index_def charAt_def typingDelay_def
      take_Suc_conv_app_nth min_def)

lemma type_showing_full:
  assumes "i < length txs"
  shows "type txs (showing i (txs ! i)) = Inr (showing i (txs ! i), (Erase, 2000))"
  using assms by (simp add: type_def showing_def index_def newTextDelay_def)

lemma erase_showing:
  assumes "i < length txs" and "k < length (txs ! i)"
  shows "erase txs (showing i (take (Suc k) (txs ! i))) = Inr (showing i (take k (txs ! i)), (Erase, 100))"
proof -
  from assms(2) have "length (take (Suc k) (txs ! i)) = Suc k"
    and "length (take k (txs ! i)) = k"
    by simp_all
  then show ?thesis using assms(1)
    by (simp add: erase_def showing_def index_def substring_0 erasingDelay_def
        del: length_take)
qed

lemma erase_showing_empty:
  assumes "i < length txs"
  shows "erase txs (showing i []) = Inr (showing (Suc i mod length txs) [], (Type, 1250))"
proof -
  have "(if int i + 1 \<ge> int (length txs) then 0 else int i + 1) = int (Suc i mod length txs)"
    using assms wrap_mod [of "int i" "int (length txs)"] by (simp add: zmod_int add.commute)
  then show ?thesis
    by (simp add: erase_def showing_def Let_def typingDelay_def)
qed

lemma run_typing:
  assumes "i < length txs" and "k \<le> length (txs ! i)"
  shows "run k txs (showing i [], (Type, d)) =
           Inr (showing i (take k (txs ! i)), (Type, if k = 0 then d else 150))"
  using assms(2)
proof (induction k)
  case 0
  show ?case by simp
next
  case (Suc k)
  then have "run k txs (showing i [], (Type, d)) =
               Inr (showing i (take k (txs ! i)), (Type, if k = 0 then d else 150))"
    by simp
  with type_showing [OF assms(1), of k] Suc.prems show ?case
    by (simp add: run_snoc fire_def del: run.simps)
qed

lemma run_erasing:
  assumes "i < length txs" and "j \<le> length (txs ! i)"
  shows "run (Suc (length (txs ! i)) + j) txs (showing i [], (Type, d)) =
           Inr (showing i (take (length (txs ! i) - j) (txs ! i)),
                (Erase, if j = 0 then 2000 else 100))"
  using assms(2)
proof (induction j)
  case 0
  from run_typing [OF assms(1), of "length (txs ! i)" d] type_showing_full [OF assms(1)]
  show ?case by (simp add: run_snoc fire_def del: run.simps)
next
  case (Suc j)
  then have IH: "run (Suc (length (txs ! i)) + j) txs (showing i [], (Type, d)) =
           Inr (showing i (take (length (txs ! i) - j) (txs ! i)),
                (Erase, if j = 0 then 2000 else 100))"
    by simp
  from Suc.prems have "length (txs ! i) - j = Suc (length (txs ! i) - Suc j)"
    and "length (txs ! i) - Suc j < length (txs ! i)"
    by simp_all
  with erase_showing [OF assms(1), of "length (txs ! i) - Suc j"]
  have "erase txs (showing i (take (length (txs ! i) - j) (txs ! i))) =
          Inr (showing i (take (length (txs ! i) - Suc j) (txs ! i)), (Erase, 100))"
    by simp
  with IH show ?case
    using run_snoc [of "Suc (length (txs ! i)) + j" txs "(showing i [], (Type, d))"]
    by (simp add: fire_def del: run.simps)
qed

lemma run_cycle:
  assumes "i < length txs"
  shows "run (cycle_steps (txs ! i)) txs (showing i [], (Type, d)) =
           Inr (showing (Suc i mod length txs) [], (Type, 1250))"
proof -
  have "cycle_steps (txs ! i) = Suc (Suc (length (txs ! i)) + length (txs ! i))"
    by (simp add: cycle_steps_def)
  with run_erasing [OF assms, of "length (txs ! i)" d] erase_showing_empty [OF assms]
  show ?thesis
    using run_snoc [of "Suc (length (txs ! i)) + length (txs ! i)" txs "(showing i [], (Type, d))"]
    by (simp add: fire_def del: run.simps)
qed

lemma mod_rotate_back:
  assumes "i < n" and "k < n"
  shows "((i + k) mod n + n - i) mod n = (k::nat)"
proof -
  from assms have "(i + k) mod n + n - i = (i + k) mod n + (n - i)" by simp
  then have "((i + k) mod n + n - i) mod n = (i + k + (n - i)) mod n"
    by (simp add: mod_add_left_eq)
  also have "\<dots> = (k + n) mod n" using assms by (simp add: add.commute)
  also have "\<dots> = k" using assms by simp
  finally show ?thesis .
qed

lemma mod_rotate_forth:
  assumes "i < n" and "j < n"
  shows "(i + (j + n - i) mod n) mod n = (j::nat)"
proof -
  from assms have "j + n - i = j + (n - i)" by simp
  then have "(i + (j + n - i) mod n) mod n = (i + (j + (n - i))) mod n"
    by (simp add: mod_add_right_eq)
  also have "\<dots> = (j + n) mod n" using assms by (simp add: add.commute)
  also have "\<dots> = j" using assms by simp
  finally show ?thesis .
qed

lemma sum_rotate:
  fixes g :: "nat \<Rightarrow> nat"
  assumes "i < n"
  shows "(\<Sum>k<n. g ((i + k) mod n)) = (\<Sum>j<n. g j)"
  using assms
  by (intro sum.reindex_bij_witness [where i = "\<lambda>j. (j + n - i) mod n" and j = "\<lambda>k. (i + k) mod n"])
    (simp_all add: mod_rotate_back mod_rotate_forth)

lemma period_rotate:
  assumes "i < length txs"
  shows "(\<Sum>k<length txs. cycle_steps (txs ! ((i + k) mod length txs))) = period txs"
proof -
  have "period txs = (\<Sum>j<length txs. cycle_steps (txs ! j))"
    by (simp add: period_def sum_list_sum_nth atLeast0LessThan)
  with sum_rotate [OF assms, of "\<lambda>j. cycle_steps (txs ! j)"] show ?thesis by simp
qed

lemma run_cycles:
  assumes "i < length txs"
  shows "run (\<Sum>k<n. cycle_steps (txs ! ((i + k) mod length txs))) txs (showing i [], (Type, d)) =
           Inr (showing ((i + n) mod length txs) [], (Type, if n = 0 then d else 1250))"
proof (induction n)
  case 0
  from assms show ?case by simp
next
  case (Suc n)
  from assms have "0 < length txs" by (cases txs) simp_all
  then have "(i + n) mod length txs < length txs" by (rule mod_less_divisor)
  from run_cycle [OF this]
  have "run (cycle_steps (txs ! ((i + n) mod length txs))) txs
          (showing ((i + n) mod length txs) [], (Type, if n = 0 then d else 1250)) =
        Inr (showing ((i + Suc n) mod length txs) [], (Type, 1250))"
    by (simp add: mod_Suc_eq)
  with Suc.IH show ?case
    by (simp add: run_add del: run.simps)
qed

lemma run_period:
  assumes "i < length txs"
  shows "run (period txs) txs (showing i [], (Type, d)) = Inr (showing i [], (Type, 1250))"
  using run_cycles [OF assms, of "length txs" d] period_rotate [OF assms] assms by auto

lemma state_after_delay:
  "state_after k txs (s, (cb, d)) = state_after k txs (s, (cb, d'))"
  by (cases k) (simp_all add: state_after_def)

lemma cycle_start_showing: "cycle_start i = showing i []"
  by (simp add: cycle_start_def showing_def)

lemma run_in_cycle:
  assumes "i < length txs" and "k < cycle_steps (txs ! i)"
  shows "\<exists>t. run k txs (showing i [], (Type, d)) = Inr (showing i (cycle_text (txs ! i) k), t)"
proof (cases "k \<le> length (txs ! i)")
  case True
  with run_typing [OF assms(1) True, of d] show ?thesis
    by (simp add: cycle_text_def)
next
  case False
  define j where "j = k - Suc (length (txs ! i))"
  with False assms(2) have k: "k = Suc (length (txs ! i)) + j" and j: "j \<le> length (txs ! i)"
    by (simp_all add: cycle_steps_def)
  from k j have "2 * length (txs ! i) + 1 - k = length (txs ! i) - j" by simp
  with run_erasing [OF assms(1) j, of d] False k show ?thesis
    by (simp add: cycle_text_def del: run.simps)
qed

lemma reachable_start:
  assumes "start txs (Some initialText) = Inr (s, Some t)"
  shows "rendered_prefix txs s"
proof -
  from assms have ty: "type txs (initial (Some [])) = Inr (s, t)"
    by (auto simp: start_def initialText_def split: sum.splits)
  then have "index txs 0 \<noteq> None"
    by (auto simp: type_def initial_def split: option.splits)
  then have "rendered_prefix txs (initial (Some []))"
    by (auto simp: rendered_prefix_def initial_def)
  then show ?thesis using ty by (rule type_rendered)
qed

lemma rendered_in_bounds: "rendered_prefix txs s \<Longrightarrow> in_bounds txs s"
  by (auto simp: rendered_prefix_def in_bounds_def index_def split: option.splits if_splits)

lemma fire_rendered:
  "rendered_prefix txs s \<Longrightarrow> fire txs cb s = Inr (s', t) \<Longrightarrow> rendered_prefix txs s'"
  by (cases cb) (auto simp: fire_def intro: type_rendered erase_rendered rendered_in_bounds)

lemma fire_returns:
  assumes "in_bounds txs s" and "typedTextSpan s = Some shown"
  shows "\<exists>c'. fire txs cb s = Inr c'"
  using assms
  by (cases cb) (auto simp: fire_def type_def erase_def in_bounds_def index_def Let_def)

lemma rendered_sink: "rendered_prefix txs s \<Longrightarrow> \<exists>shown. typedTextSpan s = Some shown"
  by (auto simp: rendered_prefix_def split: option.splits)

lemma reachable_invariant:
  assumes "reachable txs c"
  shows "rendered_prefix txs (fst c)"
  using assms
proof (induction rule: reachable.induct)
  case (started s t)
  then show ?case by (simp add: reachable_start)
next
  case (fired s cb d c')
  then show ?case using fire_rendered [of txs s cb "fst c'" "snd c'"] by simp
qed

text \<open>
  Claim C1. In every configuration the animation reaches, that is after every completed
  call of \<open>type\<close> or \<open>erase\<close>, the element shows the prefix of length \<open>charIndex\<close> of
  the current playlist entry. The pending call then returns as well, so the chain of
  calls never ends in an error.
\<close>

theorem reachable_rendered_prefix:
  assumes "reachable txs (s, (cb, d))"
  shows "rendered_prefix txs s \<and> (\<exists>c'. fire txs cb s = Inr c')"
proof -
  from reachable_invariant [OF assms] have r: "rendered_prefix txs s" by simp
  with rendered_in_bounds [OF r] rendered_sink [OF r] fire_returns [of txs s _ cb]
  show ?thesis by blast
qed

theorem reachable_rendered_prefix_witness:
  "reachable texts (\<lparr>typedTextSpan = Some ''Hi'', textIndex = 0, charIndex = 2\<rparr>, (Type, 150)) \<and>
   rendered_prefix texts \<lparr>typedTextSpan = Some ''Hi'', textIndex = 0, charIndex = 2\<rparr> \<and>
   fire texts Type \<lparr>typedTextSpan = Some ''Hi'', textIndex = 0, charIndex = 2\<rparr> =
     Inr (\<lparr>typedTextSpan = Some ''Hi,'', textIndex = 0, charIndex = 3\<rparr>, (Type, 150))"
proof -
  have "reachable texts (\<lparr>typedTextSpan = Some ''H'', textIndex = 0, charIndex = 1\<rparr>, (Type, 150))"
    by (rule started)
      (simp add: start_def initialText_def initial_def type_def index_def texts_def charAt_def
        typingDelay_def)
  moreover have "fire texts Type \<lparr>typedTextSpan = Some ''H'', textIndex = 0, charIndex = 1\<rparr> =
      Inr (\<lparr>typedTextSpan = Some ''Hi'', textIndex = 0, charIndex = 2\<rparr>, (Type, 150))"
    by (simp add: fire_def type_def index_def texts_def charAt_def typingDelay_def)
  ultimately have r: "reachable texts
      (\<lparr>typedTextSpan = Some ''Hi'', textIndex = 0, charIndex = 2\<rparr>, (Type, 150))"
    by (rule fired)
  have "fire texts Type \<lparr>typedTextSpan = Some ''Hi'', textIndex = 0, charIndex = 2\<rparr> =
      Inr (\<lparr>typedTextSpan = Some ''Hi,'', textIndex = 0, charIndex = 3\<rparr>, (Type, 150))"
    by (simp add: fire_def type_def index_def texts_def charAt_def typingDelay_def)
  with r reachable_rendered_prefix [OF r] show ?thesis by simp
qed

lemma start_nonempty:
  assumes "txs \<noteq> []"
  shows "start txs (Some shown) =
     Inr (if hd txs = [] then (initial (Some shown), Some (Erase, 2000))
          else (\<lparr>typedTextSpan = Some (shown @ [hd (hd txs)]), textIndex = 0, charIndex = 1\<rparr>,
                Some (Type, 150)))"
proof -
  from assms obtain t ts where txs: "txs = t # ts" by (cases txs) auto
  show ?thesis
    by (cases t)
      (simp_all add: txs start_def initial_def type_def index_def charAt_def typingDelay_def
        newTextDelay_def)
qed

lemma start_part_000_nonempty:
  assumes "txs \<noteq> []"
  shows "start_part_000 txs (Some shown) =
     Inr (if hd txs = [] then (initial (Some shown), Some (Erase, 2000))
          else (\<lparr>typedTextSpan = Some (shown @ [hd (hd txs)]), textIndex = 0, charIndex = 1\<rparr>,
                Some (Type, 150)))"
proof -
  from assms obtain t ts where txs: "txs = t # ts" by (cases txs) auto
  show ?thesis
    by (cases t)
      (simp_all add: txs start_part_000_def initial_def type_part_000_def index_def charAt_def
        typingDelay_def newTextDelay_def)
qed

text \<open>
  Claim C4. When the element is missing, starting the animation calls nothing, sets no
  timer and raises no error, in either source file. When the element exists, the first
  thing that happens in either file is a call of \<open>type\<close> in the initial state, where
  both counters are zero; with a playlist that is not empty this call returns, having
  typed the first character of the first entry or, if that entry is empty, having set
  the pause before erasing.
\<close>

theorem start_guard:
  "start txs None = Inr (initial None, None) \<and>
   start_part_000 txs None = Inr (initial None, None) \<and>
   start txs (Some shown) =
     (case type txs (initial (Some shown)) of Inl e \<Rightarrow> Inl e | Inr (s, t) \<Rightarrow> Inr (s, Some t)) \<and>
   start_part_000 txs (Some shown) =
     (case type_part_000 txs (initial (Some shown)) of
        Inl e \<Rightarrow> Inl e | Inr (s, t) \<Rightarrow> Inr (s, Some t)) \<and>
   textIndex (initial sink) = 0 \<and> charIndex (initial sink) = 0 \<and>
   (txs \<noteq> [] \<longrightarrow>
      start txs (Some shown) =
        Inr (if hd txs = [] then (initial (Some shown), Some (Erase, 2000))
             else (\<lparr>typedTextSpan = Some (shown @ [hd (hd txs)]), textIndex = 0,
                      charIndex = 1\<rparr>, Some (Type, 150))) \<and>
      start_part_000 txs (Some shown) =
        Inr (if hd txs = [] then (initial (Some shown), Some (Erase, 2000))
             else (\<lparr>typedTextSpan = Some (shown @ [hd (hd txs)]), textIndex = 0,
                      charIndex = 1\<rparr>, Some (Type, 150))))"
  using start_nonempty [of txs shown] start_part_000_nonempty [of txs shown]
  by (simp add: start_def start_part_000_def initial_def)

theorem start_guard_witness:
  "[''Hi''] \<noteq> [] \<and>
   start [''Hi''] None = Inr (\<lparr>typedTextSpan = None, textIndex = 0, charIndex = 0\<rparr>, None) \<and>
   start_part_000 [''Hi''] None =
     Inr (\<lparr>typedTextSpan = None, textIndex = 0, charIndex = 0\<rparr>, None) \<and>
   start [''Hi''] (Some '''') =
     Inr (\<lparr>typedTextSpan = Some ''H'', textIndex = 0, charIndex = 1\<rparr>, Some (Type, 150)) \<and>
   start_part_000 [''Hi''] (Some '''') =
     Inr (\<lparr>typedTextSpan = Some ''H'', textIndex = 0, charIndex = 1\<rparr>, Some (Type, 150))"
proof -
  note g = start_guard [of "[''Hi'']" "''''"]
  have n: "[''Hi''] \<noteq> []" by simp
  from g [THEN conjunct1] g [THEN conjunct2, THEN conjunct1]
    g [THEN conjunct2, THEN conjunct2, THEN conjunct2, THEN conjunct2, THEN conjunct2,
      THEN conjunct2, rule_format, OF n] n
  show ?thesis by (simp add: initial_def)
qed

text \<open>
  Claim C5. Every call of \<open>type\<close> or \<open>erase\<close> that returns keeps both counters within
  their bounds: \<open>0 \<le> textIndex < length txs\<close> and
  \<open>0 \<le> charIndex \<le> length (txs ! textIndex)\<close>. The entry index either stays or moves
  to the next entry, to entry 0 after the last one. Where the element exists the call
  does return.
\<close>

theorem fire_in_bounds:
  assumes "in_bounds txs s"
  shows "(fire txs cb s = Inr (s', t) \<longrightarrow>
           in_bounds txs s' \<and>
           (textIndex s' = textIndex s \<or>
            textIndex s' = (if textIndex s + 1 = int (length txs) then 0 else textIndex s + 1))) \<and>
         (typedTextSpan s \<noteq> None \<longrightarrow> (\<exists>c'. fire txs cb s = Inr c'))"
proof (intro conjI impI)
  assume f: "fire txs cb s = Inr (s', t)"
  show "in_bounds txs s'"
    using assms f by (cases cb) (auto simp: fire_def intro: type_in_bounds erase_in_bounds)
  show "textIndex s' = textIndex s \<or>
      textIndex s' = (if textIndex s + 1 = int (length txs) then 0 else textIndex s + 1)"
    using assms f
    by (cases cb)
      (auto simp: fire_def type_def erase_def in_bounds_def Let_def split: option.splits if_splits)
next
  assume "typedTextSpan s \<noteq> None"
  with assms show "\<exists>c'. fire txs cb s = Inr c'" using fire_returns by fastforce
qed

theorem fire_in_bounds_witness:
  "in_bounds [''Hi'', ''Yo''] \<lparr>typedTextSpan = Some '''', textIndex = 1, charIndex = 0\<rparr> \<and>
   typedTextSpan \<lparr>typedTextSpan = Some '''', textIndex = 1, charIndex = 0\<rparr> \<noteq> None \<and>
   fire [''Hi'', ''Yo''] Erase \<lparr>typedTextSpan = Some '''', textIndex = 1, charIndex = 0\<rparr> =
     Inr (\<lparr>typedTextSpan = Some '''', textIndex = 0, charIndex = 0\<rparr>, (Type, 1250)) \<and>
   in_bounds [''Hi'', ''Yo''] \<lparr>typedTextSpan = Some '''', textIndex = 0, charIndex = 0\<rparr>"
proof -
  have b: "in_bounds [''Hi'', ''Yo''] \<lparr>typedTextSpan = Some '''', textIndex = 1, charIndex = 0\<rparr>"
    by (simp add: in_bounds_def)
  have f: "fire [''Hi'', ''Yo''] Erase \<lparr>typedTextSpan = Some '''', textIndex = 1, charIndex = 0\<rparr> =
     Inr (\<lparr>typedTextSpan = Some '''', textIndex = 0, charIndex = 0\<rparr>, (Type, 1250))"
    by (simp add: fire_def erase_def Let_def typingDelay_def)
  from fire_in_bounds [OF b, of Erase "\<lparr>typedTextSpan = Some '''', textIndex = 0, charIndex = 0\<rparr>"
      "(Type, 1250)"] b f
  show ?thesis by simp
qed

text \<open>
  Claim C6. Started on an empty element with entry \<open>i\<close> current, the animation spends
  \<open>cycle_steps (txs ! i)\<close> calls on that entry. During these calls \<open>textIndex\<close> stays
  \<open>i\<close> and the text on display is \<open>cycle_text (txs ! i) k\<close> after the \<open>k\<close>-th call; the
  last call of the cycle moves \<open>textIndex\<close> to \<open>(i + 1) mod length txs\<close>. After
  \<open>period txs\<close> calls, one cycle for each entry, the animation is back in the state it
  began in, and from then on the states it passes through repeat.
\<close>

theorem cycle_periodic:
  assumes "i < length txs"
  shows "run (cycle_steps (txs ! i)) txs (cycle_start i, (Type, d)) =
           Inr (cycle_start (Suc i mod length txs), (Type, 1250)) \<and>
         (\<forall>k<cycle_steps (txs ! i).
            state_after k txs (cycle_start i, (Type, d)) =
              Inr \<lparr>typedTextSpan = Some (cycle_text (txs ! i) k), textIndex = int i,
                    charIndex = int (length (cycle_text (txs ! i) k))\<rparr>) \<and>
         run (period txs) txs (cycle_start i, (Type, d)) = Inr (cycle_start i, (Type, 1250)) \<and>
         (\<forall>k. state_after (period txs + k) txs (cycle_start i, (Type, d)) =
                state_after k txs (cycle_start i, (Type, d)))"
proof (intro conjI allI impI)
  show "run (cycle_steps (txs ! i)) txs (cycle_start i, (Type, d)) =
          Inr (cycle_start (Suc i mod length txs), (Type, 1250))"
    using run_cycle [OF assms, of d] by (simp add: cycle_start_showing)
next
  fix k assume "k < cycle_steps (txs ! i)"
  from run_in_cycle [OF assms this, of d]
  show "state_after k txs (cycle_start i, (Type, d)) =
          Inr \<lparr>typedTextSpan = Some (cycle_text (txs ! i) k), textIndex = int i,
                charIndex = int (length (cycle_text (txs ! i) k))\<rparr>"
    by (auto simp: state_after_def cycle_start_showing showing_def)
next
  show p: "run (period txs) txs (cycle_start i, (Type, d)) = Inr (cycle_start i, (Type, 1250))"
    using run_period [OF assms, of d] by (simp add: cycle_start_showing)
  fix k
  from p have "state_after (period txs + k) txs (cycle_start i, (Type, d)) =
      state_after k txs (cycle_start i, (Type, 1250))"
    by (simp add: state_after_def run_add del: run.simps)
  then show "state_after (period txs + k) txs (cycle_start i, (Type, d)) =
      state_after k txs (cycle_start i, (Type, d))"
    using state_after_delay [of k txs "cycle_start i" Type 1250 d] by simp
qed

theorem cycle_periodic_witness:
  "(0::nat) < length [''Hi'', ''Yo''] \<and>
   run 6 [''Hi'', ''Yo''] (cycle_start 0, (Type, 0)) = Inr (cycle_start 1, (Type, 1250)) \<and>
   (3::nat) < 6 \<and>
   state_after 3 [''Hi'', ''Yo''] (cycle_start 0, (Type, 0)) =
     Inr \<lparr>typedTextSpan = Some ''Hi'', textIndex = 0, charIndex = 2\<rparr> \<and>
   run 12 [''Hi'', ''Yo''] (cycle_start 0, (Type, 0)) = Inr (cycle_start 0, (Type, 1250)) \<and>
   state_after (12 + 7) [''Hi'', ''Yo''] (cycle_start 0, (Type, 0)) =
     state_after 7 [''Hi'', ''Yo''] (cycle_start 0, (Type, 0))"
proof -
  have h: "(0::nat) < length [''Hi'', ''Yo'']" by simp
  have c: "cycle_steps ''Hi'' = 6" "period [''Hi'', ''Yo''] = 12"
    by (simp_all add: cycle_steps_def period_def)
  note p = cycle_periodic [OF h, of 0]
  from p have "run 6 [''Hi'', ''Yo''] (cycle_start 0, (Type, 0)) = Inr (cycle_start 1, (Type, 1250))"
    by (simp add: c del: run.simps)
  moreover from p have "\<forall>k<6. state_after k [''Hi'', ''Yo''] (cycle_start 0, (Type, 0)) =
      Inr \<lparr>typedTextSpan = Some (cycle_text ''Hi'' k), textIndex = 0,
            charIndex = int (length (cycle_text ''Hi'' k))\<rparr>"
    by (simp add: c del: run.simps)
  then have "state_after 3 [''Hi'', ''Yo''] (cycle_start 0, (Type, 0)) =
      Inr \<lparr>typedTextSpan = Some ''Hi'', textIndex = 0, charIndex = 2\<rparr>"
    by (simp add: cycle_text_def)
  moreover from p have "run 12 [''Hi'', ''Yo''] (cycle_start 0, (Type, 0)) =
      Inr (cycle_start 0, (Type, 1250))"
    by (simp add: c del: run.simps)
  moreover from p [THEN conjunct2, THEN conjunct2, THEN conjunct2, rule_format, of 7]
  have "state_after (12 + 7) [''Hi'', ''Yo''] (cycle_start 0, (Type, 0)) =
      state_after 7 [''Hi'', ''Yo''] (cycle_start 0, (Type, 0))"
    by (simp only: c)
  ultimately show ?thesis by simp
qed

lemma initial_showing: "initial (Some []) = showing 0 []"
  by (simp add: initial_def showing_def)

text \<open>
  Claim C7. With a playlist of exactly one entry \<open>t\<close> and an empty element, the first
  \<open>length t\<close> calls type the entry, the next call sets the 2000 ms pause, the
  following \<open>length t\<close> calls erase it character by character, and the call after
  them keeps \<open>textIndex\<close> at 0 and sets the 1250 ms pause; from then on the same
  states repeat, so the entry is typed again from the empty text and the erase phase is
  never skipped. For the playlist \<open>[''Hi'']\<close> the element shows \<open>H\<close>, \<open>Hi\<close>, \<open>Hi\<close>
  (pause), \<open>H\<close>, the empty text, the empty text (pause) and \<open>H\<close> again.
\<close>

theorem single_entry_scenario:
  "(\<forall>k\<le>length t.
      run k [t] (initial (Some []), (Type, d)) =
        Inr (\<lparr>typedTextSpan = Some (take k t), textIndex = 0, charIndex = int k\<rparr>,
             (Type, if k = 0 then d else 150))) \<and>
   (\<forall>j\<le>length t.
      run (Suc (length t) + j) [t] (initial (Some []), (Type, d)) =
        Inr (\<lparr>typedTextSpan = Some (take (length t - j) t), textIndex = 0,
               charIndex = int (length t - j)\<rparr>,
             (Erase, if j = 0 then 2000 else 100))) \<and>
   run (2 * length t + 2) [t] (initial (Some []), (Type, d)) =
     Inr (initial (Some []), (Type, 1250)) \<and>
   (\<forall>k. state_after (2 * length t + 2 + k) [t] (initial (Some []), (Type, d)) =
        state_after k [t] (initial (Some []), (Type, d))) \<and>
   start [''Hi''] (Some '''') =
     Inr (\<lparr>typedTextSpan = Some ''H'', textIndex = 0, charIndex = 1\<rparr>, Some (Type, 150)) \<and>
   run 1 [''Hi''] (initial (Some ''''), (Type, 0)) =
     Inr (\<lparr>typedTextSpan = Some ''H'', textIndex = 0, charIndex = 1\<rparr>, (Type, 150)) \<and>
   run 2 [''Hi''] (initial (Some ''''), (Type, 0)) =
     Inr (\<lparr>typedTextSpan = Some ''Hi'', textIndex = 0, charIndex = 2\<rparr>, (Type, 150)) \<and>
   run 3 [''Hi''] (initial (Some ''''), (Type, 0)) =
     Inr (\<lparr>typedTextSpan = Some ''Hi'', textIndex = 0, charIndex = 2\<rparr>, (Erase, 2000)) \<and>
   run 4 [''Hi''] (initial (Some ''''), (Type, 0)) =
     Inr (\<lparr>typedTextSpan = Some ''H'', textIndex = 0, charIndex = 1\<rparr>, (Erase, 100)) \<and>
   run 5 [''Hi''] (initial (Some ''''), (Type, 0)) =
     Inr (\<lparr>typedTextSpan = Some '''', textIndex = 0, charIndex = 0\<rparr>, (Erase, 100)) \<and>
   run 6 [''Hi''] (initial (Some ''''), (Type, 0)) =
     Inr (\<lparr>typedTextSpan = Some '''', textIndex = 0, charIndex = 0\<rparr>, (Type, 1250)) \<and>
   run 7 [''Hi''] (initial (Some ''''), (Type, 0)) =
     Inr (\<lparr>typedTextSpan = Some ''H'', textIndex = 0, charIndex = 1\<rparr>, (Type, 150))"
proof -
  have i: "(0::nat) < length [t]" by simp
  have typing: "\<forall>k\<le>length t.
      run k [t] (initial (Some []), (Type, d)) =
        Inr (\<lparr>typedTextSpan = Some (take k t), textIndex = 0, charIndex = int k\<rparr>,
             (Type, if k = 0 then d else 150))"
  proof (intro allI impI)
    fix k assume "k \<le> length t"
    with run_typing [OF i, of k d]
    show "run k [t] (initial (Some []), (Type, d)) =
        Inr (\<lparr>typedTextSpan = Some (take k t), textIndex = 0, charIndex = int k\<rparr>,
             (Type, if k = 0 then d else 150))"
      by (simp add: initial_showing showing_def min_def del: run.simps)
  qed
  have erasing: "\<forall>j\<le>length t.
      run (Suc (length t) + j) [t] (initial (Some []), (Type, d)) =
        Inr (\<lparr>typedTextSpan = Some (take (length t - j) t), textIndex = 0,
               charIndex = int (length t - j)\<rparr>,
             (Erase, if j = 0 then 2000 else 100))"
  proof (intro allI impI)
    fix j assume "j \<le> length t"
    with run_erasing [OF i, of j d]
    show "run (Suc (length t) + j) [t] (initial (Some []), (Type, d)) =
        Inr (\<lparr>typedTextSpan = Some (take (length t - j) t), textIndex = 0,
               charIndex = int (length t - j)\<rparr>,
             (Erase, if j = 0 then 2000 else 100))"
      by (simp add: initial_showing showing_def min_absorb2 del: run.simps)
  qed
  have cycle: "run (2 * length t + 2) [t] (initial (Some []), (Type, d)) =
     Inr (initial (Some []), (Type, 1250))"
    using run_cycle [OF i, of d] by (simp add: initial_showing cycle_steps_def del: run.simps)
  have again: "\<forall>k. state_after (2 * length t + 2 + k) [t] (initial (Some []), (Type, d)) =
        state_after k [t] (initial (Some []), (Type, d))"
  proof
    fix k
    from cycle run_add [of "2 * length t + 2" k "[t]" "(initial (Some []), (Type, d))"]
    have "run (2 * length t + 2 + k) [t] (initial (Some []), (Type, d)) =
        run k [t] (initial (Some []), (Type, 1250))"
      by (simp only: sum.case)
    then have "state_after (2 * length t + 2 + k) [t] (initial (Some []), (Type, d)) =
        state_after k [t] (initial (Some []), (Type, 1250))"
      by (simp only: state_after_def)
    then show "state_after (2 * length t + 2 + k) [t] (initial (Some []), (Type, d)) =
        state_after k [t] (initial (Some []), (Type, d))"
      using state_after_delay [of k "[t]" "initial (Some [])" Type 1250 d] by simp
  qed
  have hi: "start [''Hi''] (Some '''') =
     Inr (\<lparr>typedTextSpan = Some ''H'', textIndex = 0, charIndex = 1\<rparr>, Some (Type, 150)) \<and>
   run 1 [''Hi''] (initial (Some ''''), (Type, 0)) =
     Inr (\<lparr>typedTextSpan = Some ''H'', textIndex = 0, charIndex = 1\<rparr>, (Type, 150)) \<and>
   run 2 [''Hi''] (initial (Some ''''), (Type, 0)) =
     Inr (\<lparr>typedTextSpan = Some ''Hi'', textIndex = 0, charIndex = 2\<rparr>, (Type, 150)) \<and>
   run 3 [''Hi''] (initial (Some ''''), (Type, 0)) =
     Inr (\<lparr>typedTextSpan = Some ''Hi'', textIndex = 0, charIndex = 2\<rparr>, (Erase, 2000)) \<and>
   run 4 [''Hi''] (initial (Some ''''), (Type, 0)) =
     Inr (\<lparr>typedTextSpan = Some ''H'', textIndex = 0, charIndex = 1\<rparr>, (Erase, 100)) \<and>
   run 5 [''Hi''] (initial (Some ''''), (Type, 0)) =
     Inr (\<lparr>typedTextSpan = Some '''', textIndex = 0, charIndex = 0\<rparr>, (Erase, 100)) \<and>
   run 6 [''Hi''] (initial (Some ''''), (Type, 0)) =
     Inr (\<lparr>typedTextSpan = Some '''', textIndex = 0, charIndex = 0\<rparr>, (Type, 1250)) \<and>
   run 7 [''Hi''] (initial (Some ''''), (Type, 0)) =
     Inr (\<lparr>typedTextSpan = Some ''H'', textIndex = 0, charIndex = 1\<rparr>, (Type, 150))"
    by (simp add: eval_nat_numeral start_def initial_def fire_def type_def erase_def index_def
        charAt_def substring_def Let_def typingDelay_def erasingDelay_def newTextDelay_def)
  from typing erasing cycle again hi show ?thesis by blast
qed

theorem single_entry_scenario_witness:
  "(2::nat) \<le> length ''Yo'' \<and>
   run 2 [''Yo''] (initial (Some []), (Type, 0)) =
     Inr (\<lparr>typedTextSpan = Some ''Yo'', textIndex = 0, charIndex = 2\<rparr>, (Type, 150)) \<and>
   (1::nat) \<le> length ''Yo'' \<and>
   run 4 [''Yo''] (initial (Some []), (Type, 0)) =
     Inr (\<lparr>typedTextSpan = Some ''Y'', textIndex = 0, charIndex = 1\<rparr>, (Erase, 100)) \<and>
   run 6 [''Yo''] (initial (Some []), (Type, 0)) = Inr (initial (Some []), (Type, 1250)) \<and>
   state_after (6 + 1) [''Yo''] (initial (Some []), (Type, 0)) =
     state_after 1 [''Yo''] (initial (Some []), (Type, 0))"
proof -
  note s = single_entry_scenario [of "''Yo''" 0]
  from s [THEN conjunct1, rule_format, of 2]
  have a: "run 2 [''Yo''] (initial (Some []), (Type, 0)) =
     Inr (\<lparr>typedTextSpan = Some ''Yo'', textIndex = 0, charIndex = 2\<rparr>, (Type, 150))"
    by (simp add: eval_nat_numeral del: run.simps)
  from s [THEN conjunct2, THEN conjunct1, rule_format, of 1]
  have b: "run 4 [''Yo''] (initial (Some []), (Type, 0)) =
     Inr (\<lparr>typedTextSpan = Some ''Y'', textIndex = 0, charIndex = 1\<rparr>, (Erase, 100))"
    by (simp add: eval_nat_numeral del: run.simps)
  from s [THEN conjunct2, THEN conjunct2, THEN conjunct1]
  have c: "run 6 [''Yo''] (initial (Some []), (Type, 0)) = Inr (initial (Some []), (Type, 1250))"
    by (simp add: eval_nat_numeral del: run.simps)
  from s [THEN conjunct2, THEN conjunct2, THEN conjunct2, THEN conjunct1, rule_format, of 1]
  have e: "state_after (6 + 1) [''Yo''] (initial (Some []), (Type, 0)) =
     state_after 1 [''Yo''] (initial (Some []), (Type, 0))"
    by (simp add: eval_nat_numeral del: run.simps)
  from a b c e show ?thesis by simp
qed

text \<open>
  Claim C8. The functions of \<open>src/unnamed/part_000\<close> return, in every state, what the
  functions of \<open>src/app.js\<close> return: the same successor state, text and timer, or the
  same error.
\<close>

theorem implementations_agree:
  "type_part_000 txs s = type txs s \<and> erase_part_000 txs s = erase txs s \<and>
   start_part_000 txs sink = start txs sink"
proof -
  have ty: "type_part_000 txs s' = type txs s'" for s' :: "'a animator"
    by (simp add: type_part_000_def type_def)
  have "erase_part_000 txs s = erase txs s"
    by (simp add: erase_part_000_def erase_def)
  moreover have "start_part_000 txs sink = start txs sink"
    by (cases sink) (simp_all add: start_part_000_def start_def ty)
  ultimately show ?thesis using ty by simp
qed

text \<open>
  Claim C10. With a defined current entry, a call of \<open>type\<close> with \<open>charIndex\<close> equal to
  the length of the entry returns the state unchanged, and a call of \<open>erase\<close> with
  \<open>charIndex = 0\<close> changes \<open>textIndex\<close> and nothing else; the text it leaves in place is
  empty whenever the element showed the prefix of length \<open>charIndex\<close>.
\<close>

theorem boundary_steps_frame:
  assumes "index txs (textIndex s) = Some t"
  shows "(charIndex s = int (length t) \<longrightarrow> type txs s = Inr (s, (Erase, 2000))) \<and>
         (charIndex s = 0 \<longrightarrow>
            erase txs s = Inr (s\<lparr>textIndex := (textIndex s + 1) mod int (length txs)\<rparr>, (Type, 1250)) \<and>
            (rendered_prefix txs s \<longrightarrow> typedTextSpan s = Some []))"
proof -
  from assms have "0 \<le> textIndex s" "textIndex s < int (length txs)"
    by (simp_all add: index_Some_iff)
  from erase_boundary [OF _ this] assms show ?thesis
    by (auto simp: type_def newTextDelay_def rendered_prefix_def split: option.splits)
qed

theorem boundary_steps_frame_witness:
  "type [''Hi''] \<lparr>typedTextSpan = Some ''Hi'', textIndex = 0, charIndex = 2\<rparr> =
     Inr (\<lparr>typedTextSpan = Some ''Hi'', textIndex = 0, charIndex = 2\<rparr>, (Erase, 2000)) \<and>
   erase [''Hi'', ''Yo''] \<lparr>typedTextSpan = Some '''', textIndex = 0, charIndex = 0\<rparr> =
     Inr (\<lparr>typedTextSpan = Some '''', textIndex = 1, charIndex = 0\<rparr>, (Type, 1250)) \<and>
   rendered_prefix [''Hi'', ''Yo''] \<lparr>typedTextSpan = Some '''', textIndex = 0, charIndex = 0\<rparr>"
proof -
  have a: "index [''Hi''] (textIndex \<lparr>typedTextSpan = Some ''Hi'', textIndex = 0, charIndex = 2\<rparr>) = Some ''Hi''"
    by (simp add: index_def)
  have b: "index [''Hi'', ''Yo''] (textIndex \<lparr>typedTextSpan = Some '''', textIndex = 0, charIndex = 0\<rparr>) = Some ''Hi''"
    by (simp add: index_def)
  have r: "rendered_prefix [''Hi'', ''Yo''] \<lparr>typedTextSpan = Some '''', textIndex = 0, charIndex = 0\<rparr>"
    by (simp add: rendered_prefix_def index_def)
  from boundary_steps_frame [OF a] boundary_steps_frame [OF b] r show ?thesis by simp
qed

section \<open>Properties of the contact form\<close>











end
